theory Spec2Isabelle
  imports Main "HOL-Library.Sublist"
begin

section \<open>The ReAct agent of \<^verbatim>\<open>src/ch2/agentReAct.py\<close>\<close>

text \<open>
  The development embeds the class \<^verbatim>\<open>ReActAgent\<close>: its two parsers
  (\<^verbatim>\<open>_parse_output\<close>, \<^verbatim>\<open>_parse_action\<close>) and its step loop (\<^verbatim>\<open>run\<close>).

  Text is a \<^typ>\<open>string\<close>: a list of characters whose codes are the code points
  \<open>0 .. 255\<close>. The two character classes that the source relies on (the white space
  removed by \<^verbatim>\<open>str.strip\<close> and the word characters of \<^verbatim>\<open>\w\<close>) are
  those of Python 3 on that range.
\<close>

subsection \<open>Character classes\<close>

definition newline :: char where
  "newline = CHR 0x0A"

text \<open>\<^verbatim>\<open>str.isspace\<close>: the characters that \<^verbatim>\<open>str.strip()\<close> removes.\<close>

definition is_space :: "char \<Rightarrow> bool" where
  "is_space c =
     (let n = (of_char c :: nat)
      in (9 \<le> n \<and> n \<le> 13) \<or> (28 \<le> n \<and> n \<le> 32) \<or> n = 133 \<or> n = 160)"

text \<open>
  \<^verbatim>\<open>\w\<close> in a \<^verbatim>\<open>str\<close> pattern: the underscore and every character for which
  \<^verbatim>\<open>str.isalnum\<close> holds (ASCII letters and digits, and in the upper half the
  letters \<open>0xAA\<close>, \<open>0xB5\<close>, \<open>0xBA\<close>, \<open>0xC0 .. 0xFF\<close> without \<open>0xD7\<close> and
  \<open>0xF7\<close>, the superscript digits \<open>0xB2\<close>, \<open>0xB3\<close>, \<open>0xB9\<close> and the fractions
  \<open>0xBC .. 0xBE\<close>).
\<close>

definition is_word :: "char \<Rightarrow> bool" where
  "is_word c =
     (let n = (of_char c :: nat)
      in (48 \<le> n \<and> n \<le> 57) \<or> (65 \<le> n \<and> n \<le> 90) \<or> n = 95 \<or> (97 \<le> n \<and> n \<le> 122)
         \<or> n = 170 \<or> n = 178 \<or> n = 179 \<or> n = 181 \<or> n = 185 \<or> n = 186
         \<or> (188 \<le> n \<and> n \<le> 190) \<or> (192 \<le> n \<and> n \<le> 214)
         \<or> (216 \<le> n \<and> n \<le> 246) \<or> (248 \<le> n \<and> n \<le> 255))"

text \<open>\<^verbatim>\<open>str.strip()\<close>: white space is removed at both ends.\<close>

definition strip :: "string \<Rightarrow> string" where
  "strip s = rev (dropWhile is_space (rev (dropWhile is_space s)))"

subsection \<open>The fragment of \<^verbatim>\<open>re\<close> that the source uses\<close>

text \<open>
  The four patterns of the source are sequences of literal characters, the greedy
  repetitions \<^verbatim>\<open>.*\<close> and \<^verbatim>\<open>\w+\<close>, and capturing groups. A pattern is a list
  of atoms; \<open>Mark\<close> stands for a parenthesis of a group. The matcher is the
  backtracking one of \<^verbatim>\<open>re\<close>: a repetition first takes one more character and
  gives it back only when the rest of the pattern fails. On success it returns, for
  every \<open>Mark\<close> in pattern order, the text that was still unread there.
\<close>

datatype cls = Word | Dot

fun in_cls :: "cls \<Rightarrow> char \<Rightarrow> bool" where
  "in_cls Word c = is_word c"
| "in_cls Dot c = (c \<noteq> newline)"

datatype atom = Chr char | Star cls | Plus cls | Mark

fun rmatch :: "atom list \<Rightarrow> string \<Rightarrow> string list option" where
  "rmatch [] s = Some []"
| "rmatch (Mark # p) s = map_option ((#) s) (rmatch p s)"
| "rmatch (Chr c # p) [] = None"
| "rmatch (Chr c # p) (x # xs) = (if x = c then rmatch p xs else None)"
| "rmatch (Plus k # p) [] = None"
| "rmatch (Plus k # p) (x # xs) = (if in_cls k x then rmatch (Star k # p) xs else None)"
| "rmatch (Star k # p) [] = rmatch p []"
| "rmatch (Star k # p) (x # xs) =
     (if in_cls k x
      then (case rmatch (Star k # p) xs of
              Some r \<Rightarrow> Some r
            | None \<Rightarrow> rmatch p (x # xs))
      else rmatch p (x # xs))"

text \<open>\<^verbatim>\<open>re.search\<close>: the match at the leftmost position that has one.\<close>

fun search :: "atom list \<Rightarrow> string \<Rightarrow> string list option" where
  "search p [] = rmatch p []"
| "search p (x # xs) =
     (case rmatch p (x # xs) of
        Some r \<Rightarrow> Some r
      | None \<Rightarrow> search p xs)"

text \<open>The text of a group: what was read between its two marks.\<close>

definition between :: "string \<Rightarrow> string \<Rightarrow> string" where
  "between a b = take (length a - length b) a"

definition lit :: "string \<Rightarrow> atom list" where
  "lit s = map Chr s"

text \<open>\<^verbatim>\<open>r"Thought: (.*)"\<close>, \<^verbatim>\<open>r"Action: (.*)"\<close>, \<^verbatim>\<open>r"(\w+)\[(.*)\]"\<close> and
  \<^verbatim>\<open>r"Finish\[(.*)\]"\<close>.\<close>

definition thought_re :: "atom list" where
  "thought_re = lit ''Thought: '' @ [Mark, Star Dot, Mark]"

definition action_re :: "atom list" where
  "action_re = lit ''Action: '' @ [Mark, Star Dot, Mark]"

definition tool_re :: "atom list" where
  "tool_re = [Mark, Plus Word, Mark, Chr (CHR ''[''), Mark, Star Dot, Mark, Chr (CHR '']'')]"

definition finish_re :: "atom list" where
  "finish_re = lit ''Finish'' @ [Chr (CHR ''[''), Mark, Star Dot, Mark, Chr (CHR '']'')]"

subsection \<open>The two parsers\<close>

text \<open>\<^verbatim>\<open>m.group(1).strip() if m else None\<close> for a pattern with one group.\<close>

definition group1_stripped :: "string list option \<Rightarrow> string option" where
  "group1_stripped m =
     (case m of
        Some [a, b] \<Rightarrow> Some (strip (between a b))
      | _ \<Rightarrow> None)"

definition parse_output :: "string \<Rightarrow> string option \<times> string option" where
  "parse_output text =
     (let thought_match = search thought_re text;
          action_match = search action_re text;
          thought = group1_stripped thought_match;
          action = group1_stripped action_match
      in (thought, action))"

definition parse_action :: "string \<Rightarrow> string option \<times> string option" where
  "parse_action action_text =
     (case rmatch tool_re action_text of
        Some [a, b, c, d] \<Rightarrow> (Some (between a b), Some (between c d))
      | _ \<Rightarrow> (None, None))"

subsection \<open>The collaborators of the agent\<close>

text \<open>
  The agent calls code that is not part of the class: the client
  (\<^verbatim>\<open>llm_client.think\<close>), the tool registry (\<^verbatim>\<open>tool_executor\<close>) and the
  prompt template with its \<^verbatim>\<open>format\<close>. They are the fields of an environment.
  \<^item> \<open>think i prompt\<close> is what the \<open>i\<close>-th call of \<^verbatim>\<open>think\<close> in a run (counted
    from 0) returns for that prompt: \<open>None\<close> is Python's \<^verbatim>\<open>None\<close>, which the
    client returns when the request fails. A scripted sequence of responses is a
    \<open>think\<close> that ignores the prompt.
  \<^item> \<open>getTool\<close> maps a name to the registered callable, a function from the input
    text to the observation text.
  \<^item> \<open>format_prompt tools question history\<close> is
    \<^verbatim>\<open>system_prompt_tmpl.format(tools=.., question=.., history=..)\<close>.
  \<^item> \<open>err_prefix\<close> and \<open>err_suffix\<close> are the two pieces of the literal of the
    source around \<^verbatim>\<open>{tool_name}\<close> in the message for a tool that is not
    registered; their characters lie outside the range of \<^typ>\<open>char\<close>.
\<close>

record env =
  think :: "nat \<Rightarrow> string \<Rightarrow> string option"
  getAvailableTools :: string
  getTool :: "string \<Rightarrow> (string \<Rightarrow> string) option"
  format_prompt :: "string \<Rightarrow> string \<Rightarrow> string \<Rightarrow> string"
  err_prefix :: string
  err_suffix :: string

subsection \<open>The state of a run\<close>

text \<open>
  \<open>max_steps\<close> and \<open>history\<close> are the attributes of the instance, \<open>current_step\<close>
  is the local variable of \<^verbatim>\<open>run\<close>, and \<open>calls\<close> counts the calls of
  \<^verbatim>\<open>think\<close> made so far in the run.
\<close>

record state =
  max_steps :: int
  history :: "string list"
  current_step :: int
  calls :: nat

datatype error = AttributeError

text \<open>How one pass through the body of the \<^verbatim>\<open>while\<close> loop ends.\<close>

datatype control = Continue | Break | Return string | Raise error

text \<open>\<^verbatim>\<open>"\n".join(self.history)\<close>\<close>

fun join_lines :: "string list \<Rightarrow> string" where
  "join_lines [] = []"
| "join_lines [x] = x"
| "join_lines (x # y # ys) = x @ [newline] @ join_lines (y # ys)"

text \<open>Python's truth value of an optional text: \<^verbatim>\<open>None\<close> and \<^verbatim>\<open>""\<close> are false.\<close>

fun truthy :: "string option \<Rightarrow> bool" where
  "truthy None = False"
| "truthy (Some s) = (s \<noteq> [])"

definition prompt_of :: "env \<Rightarrow> string \<Rightarrow> state \<Rightarrow> string" where
  "prompt_of e question st =
     (let tools_desc = getAvailableTools e;
          history_str = join_lines (history st)
      in format_prompt e tools_desc question history_str)"

text \<open>
  Step 4 of the body, for an action that is present and not empty: the
  \<^verbatim>\<open>Finish\<close> branch, the parse of a tool call, the dispatch and the two appends.
  \<^verbatim>\<open>re.match(..)\<close> returns \<^verbatim>\<open>None\<close> when the pattern does not match, and
  \<^verbatim>\<open>None.group(1)\<close> raises \<^verbatim>\<open>AttributeError\<close>.
\<close>

definition execute :: "env \<Rightarrow> string \<Rightarrow> state \<Rightarrow> control \<times> state" where
  "execute e action st =
     (if prefix ''Finish'' action
      then (case rmatch finish_re action of
              Some [a, b] \<Rightarrow> (Return (between a b), st)
            | _ \<Rightarrow> (Raise AttributeError, st))
      else (case parse_action action of
              (tool_name, tool_input) \<Rightarrow>
                if \<not> truthy tool_name \<or> \<not> truthy tool_input
                then (Continue, st)
                else (let observation =
                            (case getTool e (the tool_name) of
                               None \<Rightarrow> err_prefix e @ the tool_name @ err_suffix e
                             | Some tool_function \<Rightarrow> tool_function (the tool_input))
                      in (Continue,
                          st\<lparr>history := history st
                                @ [''Action: '' @ action, ''Observation: '' @ observation]\<rparr>))))"

text \<open>
  One pass through the body of the loop, from the increment of the counter. The calls
  of the logger are left out: they have no effect on the state or on the result, and
  the thought is used by them only.
\<close>

definition body :: "env \<Rightarrow> string \<Rightarrow> state \<Rightarrow> control \<times> state" where
  "body e question st =
     (let st1 = st\<lparr>current_step := current_step st + 1\<rparr>;
          prompt = prompt_of e question st1;
          response_text = think e (calls st1) prompt;
          st2 = st1\<lparr>calls := calls st1 + 1\<rparr>
      in if \<not> truthy response_text then (Break, st2)
         else (case parse_output (the response_text) of
                 (thought, action) \<Rightarrow>
                   if \<not> truthy action then (Break, st2)
                   else execute e (the action) st2))"

text \<open>
  The loop \<^verbatim>\<open>while current_step < self.max_steps\<close> and what \<^verbatim>\<open>run\<close> gives
  back: \<open>Inr (Some answer)\<close> for \<^verbatim>\<open>return final_answer\<close>, \<open>Inr None\<close> when the
  loop is left by \<^verbatim>\<open>break\<close> or by its condition (the function then returns
  \<^verbatim>\<open>None\<close>), \<open>Inl\<close> for an exception. Every pass adds 1 to the counter, so
  the distance to \<open>max_steps\<close> is a measure: the loop is a total function.
\<close>

function loop :: "env \<Rightarrow> string \<Rightarrow> state \<Rightarrow> (error + string option) \<times> state" where
  "loop e question st =
     (if current_step st < max_steps st
      then (case body e question st of
              (Continue, st') \<Rightarrow> loop e question st'
            | (Break, st') \<Rightarrow> (Inr None, st')
            | (Return final_answer, st') \<Rightarrow> (Inr (Some final_answer), st')
            | (Raise err, st') \<Rightarrow> (Inl err, st'))
      else (Inr None, st))"
  by pat_completeness auto
termination
  by (relation "measure (\<lambda>(e, question, st). nat (max_steps st - current_step st))")
     (auto simp: body_def execute_def Let_def
           split: if_splits prod.splits option.splits list.splits)

declare loop.simps [simp del]

text \<open>\<^verbatim>\<open>run\<close>: the history is reset, the counter starts at 0.\<close>

definition run :: "env \<Rightarrow> state \<Rightarrow> string \<Rightarrow> (error + string option) \<times> state" where
  "run e self question =
     loop e question (self\<lparr>history := [], current_step := 0, calls := 0\<rparr>)"

text \<open>
  The passes of the loop in order, each with the way it ended and the state it left:
  the same recursion as \<open>loop\<close>, keeping every pass instead of the last one.
\<close>

function iterations :: "env \<Rightarrow> string \<Rightarrow> state \<Rightarrow> (control \<times> state) list" where
  "iterations e question st =
     (if current_step st < max_steps st
      then (case body e question st of
              (Continue, st') \<Rightarrow> (Continue, st') # iterations e question st'
            | (c, st') \<Rightarrow> [(c, st')])
      else [])"
  by pat_completeness auto
termination
  by (relation "measure (\<lambda>(e, question, st). nat (max_steps st - current_step st))")
     (auto simp: body_def execute_def Let_def
           split: if_splits prod.splits option.splits list.splits)

declare iterations.simps [simp del]

subsection \<open>Notions used to state the properties\<close>

text \<open>The rest of the line: the text up to the next line feed.\<close>

definition line_of :: "string \<Rightarrow> string" where
  "line_of s = takeWhile (\<lambda>c. c \<noteq> newline) s"

text \<open>The text before the last occurrence of a character (empty when there is none).\<close>

fun upto_last :: "char \<Rightarrow> string \<Rightarrow> string" where
  "upto_last c [] = []"
| "upto_last c (x # xs) = (if c \<in> set xs then x # upto_last c xs else [])"

text \<open>The text that follows the first occurrence of \<open>pat\<close>, if \<open>pat\<close> occurs.\<close>

fun after_first :: "string \<Rightarrow> string \<Rightarrow> string option" where
  "after_first pat [] = (if pat = [] then Some [] else None)"
| "after_first pat (x # xs) =
     (if prefix pat (x # xs) then Some (drop (length pat) (x # xs)) else after_first pat xs)"

text \<open>
  The grammar of an action in words: leading word characters, then \<open>[\<close>, then an
  argument that ends at the last \<open>]\<close> of the same line. What follows that \<open>]\<close> is
  not looked at.
\<close>

definition parse_action_spec :: "string \<Rightarrow> string option \<times> string option" where
  "parse_action_spec s =
     (let name = takeWhile is_word s;
          rest = dropWhile is_word s;
          arg_line = line_of (drop 1 rest)
      in if name \<noteq> [] \<and> take 1 rest = ''['' \<and> CHR '']'' \<in> set arg_line
         then (Some name, Some (upto_last (CHR '']'') arg_line))
         else (None, None))"

text \<open>
  The two scans of a response in words: for each prefix, the rest of the line after
  its first occurrence anywhere in the text, stripped.
\<close>

definition parse_output_spec :: "string \<Rightarrow> string option \<times> string option" where
  "parse_output_spec text =
     (map_option (\<lambda>r. strip (line_of r)) (after_first ''Thought: '' text),
      map_option (\<lambda>r. strip (line_of r)) (after_first ''Action: '' text))"

text \<open>The action that a response of the generator carries (none for a failed call).\<close>

fun response_action :: "string option \<Rightarrow> string option" where
  "response_action None = None"
| "response_action (Some t) = snd (parse_output t)"

text \<open>The observation for a tool call: the tool's result, or the message for a
  name that is not registered.\<close>

definition observe :: "env \<Rightarrow> string \<Rightarrow> string \<Rightarrow> string" where
  "observe e tool_name tool_input =
     (case getTool e tool_name of
        None \<Rightarrow> err_prefix e @ tool_name @ err_suffix e
      | Some tool_function \<Rightarrow> tool_function tool_input)"

text \<open>The state when the prompt is built, and the state after the call of
  \<^verbatim>\<open>think\<close>.\<close>

definition entered :: "state \<Rightarrow> state" where
  "entered st = st\<lparr>current_step := current_step st + 1\<rparr>"

definition called :: "state \<Rightarrow> state" where
  "called st = st\<lparr>current_step := current_step st + 1, calls := calls st + 1\<rparr>"

text \<open>A concrete environment and instance, for evaluating the code.\<close>

definition demo_env :: env where
  "demo_env =
     \<lparr>think = (\<lambda>i p. Some ''Thought: a\<newline>Action: Finish[1]''),
      getAvailableTools = ''- Search: web search'',
      getTool = (\<lambda>n. if n = ''Search'' then Some (\<lambda>x. ''result for '' @ x) else None),
      format_prompt = (\<lambda>tools question history. tools @ question @ history),
      err_prefix = ''no tool named '', err_suffix = ''.''\<rparr>"

definition demo_self :: state where
  "demo_self = \<lparr>max_steps = 5, history = [], current_step = 0, calls = 0\<rparr>"

text \<open>A response that leads to the dispatch of a registered tool: it carries an
  action that does not begin with \<open>Finish\<close>, the action parses into a name and an
  argument that is not empty, and the name is registered.\<close>

definition dispatches :: "env \<Rightarrow> string option \<Rightarrow> bool" where
  "dispatches e r =
     (case response_action r of
        None \<Rightarrow> False
      | Some act \<Rightarrow>
          \<not> prefix ''Finish'' act \<and>
          (case parse_action act of
             (Some name, Some inp) \<Rightarrow>
               inp \<noteq> [] \<and> (case getTool e name of None \<Rightarrow> False | Some f \<Rightarrow> True)
           | _ \<Rightarrow> False))"

text \<open>A script for the generator: two tool calls, then the final answer.\<close>

definition script_env :: env where
  "script_env =
     demo_env\<lparr>think := (\<lambda>i p. if i < 2 then Some ''Thought: look it up\<newline>Action: Search[x]''
                               else Some ''Thought: t\<newline>Action: Finish[42]'')\<rparr>"

text \<open>What \<^verbatim>\<open>run\<close> gives back after a last pass that ended in the given way (a
  pass that ended with \<open>Continue\<close> is the last one when the loop condition fails
  after it).\<close>

fun outcome :: "control \<Rightarrow> error + string option" where
  "outcome Continue = Inr None"
| "outcome Break = Inr None"
| "outcome (Return final_answer) = Inr (Some final_answer)"
| "outcome (Raise err) = Inl err"

text \<open>A history that consists of pairs: an \<open>Action: \<close> line, then an
  \<open>Observation: \<close> line.\<close>

fun pairs_only :: "string list \<Rightarrow> bool" where
  "pairs_only [] = True"
| "pairs_only [x] = False"
| "pairs_only (a # b # rest) =
     (prefix ''Action: '' a \<and> prefix ''Observation: '' b \<and> pairs_only rest)"

section \<open>Properties\<close>

subsection \<open>The patterns\<close>

lemma between_append: "between (u @ r) r = u"
  by (simp add: between_def)

lemma between_dropWhile: "between s (dropWhile P s) = takeWhile P s"
  using between_append [of "takeWhile P s" "dropWhile P s"] by simp

lemma prefix_upto_last: "prefix (upto_last c xs) xs"
  by (induction xs) auto

lemma between_drop_prefix:
  assumes "prefix u s"
  shows "between s (drop (length u) s) = u"
proof -
  from assms obtain r where "s = u @ r" by (auto simp: prefix_def)
  then show ?thesis by (simp add: between_def)
qed

lemma prefix_upto_last_line: "prefix (upto_last c (line_of ys)) ys"
proof -
  have "prefix (line_of ys) ys"
    unfolding line_of_def by (metis prefixI takeWhile_dropWhile_id)
  with prefix_upto_last [of c "line_of ys"] show ?thesis
    using prefix_order.trans by blast
qed

lemma rmatch_star_dot_end:
  "rmatch [Star Dot, Mark] s = Some [dropWhile (\<lambda>c. c \<noteq> newline) s]"
  by (induction s) auto

text \<open>\<^verbatim>\<open>.*\<close> before a literal: the repetition gives characters back down to the
  last occurrence of the literal in the line.\<close>

lemma rmatch_star_dot_chr:
  "c \<noteq> newline \<Longrightarrow>
   rmatch [Star Dot, Mark, Chr c] s =
     (if c \<in> set (line_of s) then Some [drop (length (upto_last c (line_of s))) s] else None)"
  by (induction s) (auto simp: line_of_def)

text \<open>\<^verbatim>\<open>\w*\<close> before a literal that is no word character: giving characters back
  never helps.\<close>

lemma rmatch_star_word_chr:
  "\<not> is_word c \<Longrightarrow>
   rmatch (Star Word # Mark # Chr c # p) s =
     (case dropWhile is_word s of
        [] \<Rightarrow> None
      | y # ys \<Rightarrow> if y = c then map_option ((#) (y # ys)) (rmatch p ys) else None)"
  by (induction s) (auto split: list.splits option.splits)

lemma rmatch_lit:
  "rmatch (lit pat @ q) s = (if prefix pat s then rmatch q (drop (length pat) s) else None)"
  by (induction pat arbitrary: s) (auto simp: lit_def split: list.splits, (case_tac s; simp)+)

lemma not_word_lbracket: "\<not> is_word (CHR ''['')"
  by (simp add: is_word_def)

lemma rbracket_not_newline: "CHR '']'' \<noteq> newline"
  by (simp add: newline_def)

lemma dropWhile_Cons_ex: "dropWhile P xs = y # ys \<Longrightarrow> \<exists>x\<in>set xs. \<not> P x"
  by (metis dropWhile_eq_Nil_conv list.distinct(1))

lemma rmatch_tool_re:
  "rmatch tool_re s =
     (case dropWhile is_word s of
        [] \<Rightarrow> None
      | y # ys \<Rightarrow>
          if takeWhile is_word s \<noteq> [] \<and> y = CHR ''['' \<and> CHR '']'' \<in> set (line_of ys)
          then Some [s, y # ys, ys, drop (length (upto_last (CHR '']'') (line_of ys))) ys]
          else None)"
proof (cases s)
  case Nil
  then show ?thesis by (simp add: tool_re_def)
next
  case (Cons x xs)
  show ?thesis
  proof (cases "is_word x")
    case True
    then show ?thesis
      using Cons
      by (auto simp: tool_re_def rmatch_star_word_chr [OF not_word_lbracket]
            rmatch_star_dot_chr [OF rbracket_not_newline] split: list.splits
            dest: dropWhile_Cons_ex)
  next
    case False
    then show ?thesis
      using Cons by (simp add: tool_re_def)
  qed
qed

lemma parse_action_char: "parse_action s = parse_action_spec s"
proof (cases "dropWhile is_word s")
  case Nil
  show ?thesis
    unfolding parse_action_def parse_action_spec_def rmatch_tool_re Let_def Nil
    by simp
next
  case (Cons y ys)
  have b1: "between s (y # ys) = takeWhile is_word s"
    using between_dropWhile [of s is_word] Cons by simp
  have b2: "between ys (drop (length (upto_last (CHR '']'') (line_of ys))) ys)
              = upto_last (CHR '']'') (line_of ys)"
    by (rule between_drop_prefix [OF prefix_upto_last_line])
  show ?thesis
    using Cons b1 b2
    by (auto simp: parse_action_def parse_action_spec_def rmatch_tool_re Let_def)
qed

lemma search_prefix_re:
  "pat \<noteq> [] \<Longrightarrow>
   search (lit pat @ [Mark, Star Dot, Mark]) s =
     map_option (\<lambda>r. [r, dropWhile (\<lambda>c. c \<noteq> newline) r]) (after_first pat s)"
  by (induction s) (auto simp: rmatch_lit rmatch_star_dot_end)

lemma group1_after:
  "pat \<noteq> [] \<Longrightarrow>
   group1_stripped (search (lit pat @ [Mark, Star Dot, Mark]) s) =
     map_option (\<lambda>r. strip (line_of r)) (after_first pat s)"
  by (cases "after_first pat s")
     (simp_all add: search_prefix_re group1_stripped_def between_dropWhile line_of_def)

lemma parse_output_char: "parse_output s = parse_output_spec s"
  by (simp add: parse_output_def parse_output_spec_def thought_re_def action_re_def
        group1_after Let_def)

text \<open>\<open>after_first\<close> finds the leftmost occurrence, and fails only when there is
  none.\<close>

lemma after_first_Some:
  "after_first pat s = Some r \<Longrightarrow>
     \<exists>pre. s = pre @ pat @ r
       \<and> (\<forall>pre' r'. s = pre' @ pat @ r' \<longrightarrow> length pre \<le> length pre')"
proof (induction s)
  case Nil
  then show ?case by (auto split: if_splits)
next
  case (Cons x xs)
  show ?case
  proof (cases "prefix pat (x # xs)")
    case True
    with Cons.prems have "r = drop (length pat) (x # xs)" by simp
    with True have "x # xs = [] @ pat @ r"
      by (metis append_Nil append_eq_conv_conj prefixE)
    then show ?thesis by (metis le0 list.size(3))
  next
    case False
    with Cons.prems have "after_first pat xs = Some r" by simp
    from Cons.IH [OF this] obtain pre where
      pre: "xs = pre @ pat @ r"
      and least: "\<forall>pre' r'. xs = pre' @ pat @ r' \<longrightarrow> length pre \<le> length pre'"
      by blast
    have "length (x # pre) \<le> length pre'" if eq: "x # xs = pre' @ pat @ r'" for pre' r'
    proof (cases pre')
      case Nil
      with eq have "prefix pat (x # xs)" by simp
      with False show ?thesis by simp
    next
      case (Cons z zs)
      with eq have "xs = zs @ pat @ r'" by simp
      with least have "length pre \<le> length zs" by blast
      with Cons show ?thesis by simp
    qed
    with pre show ?thesis
      by (metis append_Cons)
  qed
qed

lemma after_first_None: "after_first pat s = None \<longleftrightarrow> \<not> sublist pat s"
  by (induction s) (auto simp: sublist_Cons_right)

subsection \<open>The action parser\<close>

text \<open>
  Claim C2, first as the specification states it: a text that does not end with
  \<open>]\<close> after the name and \<open>[\<close>, such as \<open>Search[a]x\<close>, makes the parse fail with
  both fields absent. The code uses \<^verbatim>\<open>re.match\<close>, which anchors the pattern at
  the start of the text only: the parse of \<open>Search[a]x\<close> succeeds, with tool
  \<open>Search\<close> and argument \<open>a\<close>.
\<close>

theorem parse_action_trailing_text_counterexample:
  "parse_action ''Search[a]x'' = (Some ''Search'', Some ''a'')
   \<and> parse_action ''Search[a]x'' \<noteq> (None, None)"
  by code_simp

text \<open>
  Claim C2 as amended: for every text, \<open>parse_action\<close> succeeds exactly when the text
  starts with one or more word characters followed by \<open>[\<close> and the rest of that
  line contains a \<open>]\<close>; the tool name is the leading word characters and the
  argument is everything between that \<open>[\<close> and the last \<open>]\<close> of the line (greedy);
  what follows the last \<open>]\<close> is ignored; in every other case both fields are
  absent.
\<close>

theorem parse_action_grammar: "parse_action s = parse_action_spec s"
  by (rule parse_action_char)

theorem parse_action_grammar_witness:
  "parse_action ''Search[a[b]c]'' = (Some ''Search'', Some ''a[b]c'')"
  unfolding parse_action_grammar by code_simp

subsection \<open>The output parser\<close>

text \<open>
  Claim C5, first as the specification states it: only a prefix at the start of a
  line is recognised. The code uses \<^verbatim>\<open>re.search\<close> with a pattern that has no
  anchor, so the prefix is found in the middle of a line as well.
\<close>

theorem parse_output_mid_line_counterexample:
  "parse_output ''I had a Thought: foo'' = (Some ''foo'', None)"
  by code_simp

text \<open>
  Claim C5 as amended: \<open>parse_output\<close> takes the first occurrence of \<open>Thought: \<close>
  (and, independently, of \<open>Action: \<close>) anywhere in the text, captures everything
  after it up to but not including the next line feed, stripped of surrounding white
  space; later occurrences are ignored, and a field is absent exactly when its
  prefix does not occur in the text.
\<close>

theorem parse_output_scan: "parse_output s = parse_output_spec s"
  by (rule parse_output_char)

theorem parse_output_scan_witness:
  "parse_output ''Thought: foo\<newline>Action: Bar[baz]\<newline>Action: Other[x]''
     = (Some ''foo'', Some ''Bar[baz]'')"
  unfolding parse_output_scan by code_simp

subsection \<open>A \<open>Finish\<close> action without a payload\<close>

text \<open>
  Claim C1: \<^verbatim>\<open>run\<close> never raises, and an action that begins with \<open>Finish\<close> but
  has no bracketed payload is a grammar failure that consumes the step. The code
  calls \<^verbatim>\<open>.group(1)\<close> on the result of \<^verbatim>\<open>re.match\<close> without the test that
  \<^verbatim>\<open>_parse_action\<close> and \<^verbatim>\<open>_parse_output\<close> make: for the response below the
  run ends with \<^verbatim>\<open>AttributeError\<close> at the first step.
\<close>

theorem run_finish_without_payload:
  "fst (run (demo_env\<lparr>think := (\<lambda>i p. Some ''Thought: done\<newline>Action: Finish'')\<rparr>)
         demo_self ''q'')
     = Inl AttributeError"
  by code_simp

subsection \<open>One pass of the loop\<close>

lemma body_counters:
  "body e question st = (c, st') \<Longrightarrow>
     current_step st' = current_step st + 1 \<and> max_steps st' = max_steps st
     \<and> calls st' = calls st + 1"
  by (auto simp: body_def execute_def Let_def
        split: if_splits prod.splits option.splits list.splits)

lemma parse_output_Nil: "parse_output [] = (None, None)"
  by (simp add: parse_output_char parse_output_spec_def)

lemma body_alt:
  "body e q st =
     (let a = response_action (think e (calls st) (prompt_of e q (entered st)))
      in if truthy a then execute e (the a) (called st) else (Break, called st))"
proof (cases "think e (calls st) (prompt_of e q (entered st))")
  case None
  then show ?thesis
    by (simp add: body_def Let_def entered_def called_def)
next
  case (Some t)
  then show ?thesis
    by (cases "parse_output t"; cases t)
       (simp_all add: body_def Let_def entered_def called_def parse_output_Nil)
qed

lemma execute_think_irrelevant: "execute (e\<lparr>think := g\<rparr>) a st = execute e a st"
  by (simp add: execute_def Let_def split: prod.splits option.splits list.splits)

lemma prompt_of_think_irrelevant: "prompt_of (e\<lparr>think := g\<rparr>) q st = prompt_of e q st"
  by (simp add: prompt_of_def)

lemma loop_cong:
  assumes "\<And>s. body e' q s = body e q s"
  shows "loop e' q st = loop e q st"
  using assms
proof (induction e q st rule: loop.induct)
  case (1 e q st)
  show ?case
  proof (cases "current_step st < max_steps st")
    case False
    then show ?thesis by (simp add: loop.simps)
  next
    case True
    obtain c st' where b: "body e q st = (c, st')"
      by (cases "body e q st")
    show ?thesis
    proof (cases c)
      case Continue
      with b have "(Continue, st') = body e q st" by simp
      from "1.IH" [OF True this refl "1.prems"] have "loop e' q st' = loop e q st'" .
      with True b Continue "1.prems" show ?thesis
        by (simp add: loop.simps [of e q st] loop.simps [of e' q st])
    qed (use True b "1.prems" in \<open>simp_all add: loop.simps [of e q st] loop.simps [of e' q st]\<close>)
  qed
qed

lemma loop_Continue:
  "current_step st < max_steps st \<Longrightarrow> body e q st = (Continue, st') \<Longrightarrow>
     loop e q st = loop e q st'"
  by (simp add: loop.simps [of e q st])

lemma loop_Break:
  "current_step st < max_steps st \<Longrightarrow> body e q st = (Break, st') \<Longrightarrow>
     loop e q st = (Inr None, st')"
  by (simp add: loop.simps [of e q st])

lemma loop_Return:
  "current_step st < max_steps st \<Longrightarrow> body e q st = (Return a, st') \<Longrightarrow>
     loop e q st = (Inr (Some a), st')"
  by (simp add: loop.simps [of e q st])

lemma loop_Raise:
  "current_step st < max_steps st \<Longrightarrow> body e q st = (Raise x, st') \<Longrightarrow>
     loop e q st = (Inl x, st')"
  by (simp add: loop.simps [of e q st])

lemma loop_exhausted: "\<not> current_step st < max_steps st \<Longrightarrow> loop e q st = (Inr None, st)"
  by (simp add: loop.simps [of e q st])

lemma execute_dispatch:
  assumes "\<not> prefix ''Finish'' act" "parse_action act = (Some name, Some inp)" "inp \<noteq> []"
  shows "execute e act st =
           (Continue, st\<lparr>history := history st
              @ [''Action: '' @ act, ''Observation: '' @ observe e name inp]\<rparr>)"
proof -
  from assms(2) have "name = takeWhile is_word act" "name \<noteq> []"
    by (auto simp: parse_action_char parse_action_spec_def Let_def split: if_splits)
  with assms show ?thesis
    by (simp add: execute_def observe_def Let_def split: option.splits)
qed


subsection \<open>The thought\<close>

text \<open>
  Claim C3, first as the specification states it: two sequences of responses that
  differ only in the text of their \<open>Thought: \<close> lines give the same result. The scan
  for \<open>Action: \<close> runs over the whole response, the thought line included: a thought
  whose text contains \<open>Action: \<close> supplies the action. Below, the two responses have
  the same \<open>Action: \<close> line and differ in the text of the thought only; the results
  differ.
\<close>

theorem thought_text_counterexample:
  "fst (run (demo_env\<lparr>think := (\<lambda>i p. Some ''Thought: a\<newline>Action: Finish[1]'')\<rparr>)
          demo_self ''q'') = Inr (Some ''1'')
   \<and> fst (run (demo_env\<lparr>think := (\<lambda>i p. Some ''Thought: Action: Finish[2]\<newline>Action: Finish[1]'')\<rparr>)
          demo_self ''q'') = Inr (Some ''2'')
   \<and> fst (run (demo_env\<lparr>think := (\<lambda>i p. Some ''Thought: a\<newline>Action: Finish[1]'')\<rparr>)
          demo_self ''q'')
       \<noteq> fst (run (demo_env\<lparr>think := (\<lambda>i p. Some ''Thought: Action: Finish[2]\<newline>Action: Finish[1]'')\<rparr>)
          demo_self ''q'')"
  by code_simp

text \<open>
  Claim C3 as amended: the parsed thought never influences control flow. If two
  generators give, at every call and for every prompt, responses with the same parsed
  action (a failed call counting as a response without action), then \<open>run\<close> returns
  the same result and leaves the same history, whatever the thoughts are.
\<close>

theorem thought_not_control_flow:
  assumes "\<And>i p. response_action (g i p) = response_action (think e i p)"
  shows "run (e\<lparr>think := g\<rparr>) self q = run e self q"
proof -
  have "body (e\<lparr>think := g\<rparr>) q s = body e q s" for s
    by (simp add: body_alt execute_think_irrelevant prompt_of_think_irrelevant assms Let_def
          cong del: if_weak_cong)
  then show ?thesis
    unfolding run_def by (rule loop_cong)
qed

theorem thought_not_control_flow_witness:
  "run (demo_env\<lparr>think := (\<lambda>i p. Some ''Thought: something else\<newline>Action: Finish[1]'')\<rparr>)
       demo_self ''q''
     = run demo_env demo_self ''q''"
proof (rule thought_not_control_flow)
  fix i :: nat and p :: string
  show "response_action (Some ''Thought: something else\<newline>Action: Finish[1]'')
          = response_action (think demo_env i p)"
    unfolding demo_env_def by code_simp
qed


subsection \<open>An empty response\<close>

text \<open>
  Claim C10: an empty response is treated exactly like a failed call of the
  generator. At any pass of the loop, the run stops at once with no answer, the
  history is the one before the pass, and the outcome is the one of a generator that
  fails.
\<close>

theorem empty_response_aborts:
  assumes "think e (calls st) (prompt_of e q (entered st)) = Some []"
    and "current_step st < max_steps st"
  shows "loop e q st = (Inr None, called st)
         \<and> history (called st) = history st
         \<and> loop (e\<lparr>think := (\<lambda>i p. None)\<rparr>) q st = (Inr None, called st)"
proof -
  have "body e q st = (Break, called st)"
    using assms(1) by (simp add: body_alt parse_output_Nil)
  moreover have "body (e\<lparr>think := (\<lambda>i p. None)\<rparr>) q st = (Break, called st)"
    by (simp add: body_alt)
  ultimately show ?thesis
    using assms(2) by (simp add: loop_Break called_def)
qed

theorem empty_response_aborts_witness:
  "loop (demo_env\<lparr>think := (\<lambda>i p. Some [])\<rparr>) ''q'' demo_self
     = (Inr None, \<lparr>max_steps = 5, history = [], current_step = 1, calls = 1\<rparr>)"
proof -
  have "think (demo_env\<lparr>think := (\<lambda>i p. Some [])\<rparr>) (calls demo_self)
          (prompt_of (demo_env\<lparr>think := (\<lambda>i p. Some [])\<rparr>) ''q'' (entered demo_self)) = Some []"
    by simp
  moreover have "current_step demo_self < max_steps demo_self"
    by (simp add: demo_self_def)
  ultimately show ?thesis
    using empty_response_aborts [of "demo_env\<lparr>think := (\<lambda>i p. Some [])\<rparr>" demo_self "''q''"]
    by (simp add: called_def demo_self_def)
qed


subsection \<open>A tool that is not registered\<close>




subsection \<open>An empty argument\<close>

text \<open>
  Claim C4, first as the specification states it: for an action \<open>Name[]\<close> with a
  registered \<open>Name\<close> the tool is called with the empty input and the pair is appended
  to the history. The parse does yield both fields, but the test of the loop,
  \<^verbatim>\<open>if not tool_name or not tool_input\<close>, takes the empty argument for a missing
  one: nothing is dispatched and nothing is appended.
\<close>

theorem empty_argument_counterexample:
  "parse_action ''Search[]'' = (Some ''Search'', Some [])
   \<and> history (snd (body (demo_env\<lparr>think := (\<lambda>i p. Some ''Thought: t\<newline>Action: Search[]'')\<rparr>)
                      ''q'' demo_self)) = []
   \<and> history (snd (body (demo_env\<lparr>think := (\<lambda>i p. Some ''Thought: t\<newline>Action: Search[]'')\<rparr>)
                      ''q'' demo_self))
       \<noteq> [''Action: Search[]'', ''Observation: '' @ observe demo_env ''Search'' []]"
  by code_simp

text \<open>
  Claim C4 as amended: for an action \<open>Name[]\<close> that does not begin with \<open>Finish\<close>,
  \<open>parse_action\<close> yields both fields (the name and the empty argument), and the loop
  treats the step like a grammar failure: the step is consumed, no tool is called,
  the history is unchanged, and the run goes on with the next step.
\<close>

theorem empty_argument_consumes_step:
  assumes "response_action (think e (calls st) (prompt_of e q (entered st))) = Some (name @ ''[]'')"
    and "name \<noteq> []"
    and "list_all is_word name"
    and "\<not> prefix ''Finish'' (name @ ''[]'')"
    and "current_step st < max_steps st"
  shows "parse_action (name @ ''[]'') = (Some name, Some [])
         \<and> body e q st = (Continue, called st)
         \<and> history (called st) = history st
         \<and> loop e q st = loop e q (called st)"
proof -
  have tw: "takeWhile is_word (name @ ''[]'') = name"
    using assms(3) not_word_lbracket by (simp add: list_all_iff takeWhile_append2)
  have dw: "dropWhile is_word (name @ ''[]'') = ''[]''"
    using assms(3) not_word_lbracket by (simp add: list_all_iff dropWhile_append2)
  have pa: "parse_action (name @ ''[]'') = (Some name, Some [])"
    using assms(2)
    by (simp add: parse_action_char parse_action_spec_def Let_def tw dw line_of_def newline_def)
  have "body e q st = execute e (name @ ''[]'') (called st)"
    using assms(1,2) by (simp add: body_alt)
  with pa assms(2,4) have b: "body e q st = (Continue, called st)"
    by (simp add: execute_def)
  from loop_Continue [OF assms(5) b] pa b show ?thesis
    by (simp add: called_def)
qed

theorem empty_argument_consumes_step_witness:
  "body (demo_env\<lparr>think := (\<lambda>i p. Some ''Thought: t\<newline>Action: Search[]'')\<rparr>) ''q'' demo_self
     = (Continue, \<lparr>max_steps = 5, history = [], current_step = 1, calls = 1\<rparr>)"
proof -
  let ?e = "demo_env\<lparr>think := (\<lambda>i p. Some ''Thought: t\<newline>Action: Search[]'')\<rparr>"
  have 1: "response_action (think ?e (calls demo_self) (prompt_of ?e ''q'' (entered demo_self)))
             = Some (''Search'' @ ''[]'')"
    by code_simp
  have 2: "''Search'' \<noteq> []"
    by simp
  have 3: "list_all is_word ''Search''"
    by code_simp
  have 4: "\<not> prefix ''Finish'' (''Search'' @ ''[]'')"
    by simp
  have 5: "current_step demo_self < max_steps demo_self"
    by (simp add: demo_self_def)
  from empty_argument_consumes_step [OF 1 2 3 4 5] show ?thesis
    by (simp add: called_def demo_self_def)
qed


subsection \<open>The final answer\<close>

lemma upto_last_snoc: "upto_last c (xs @ [c]) = xs"
  by (induction xs) auto

lemma line_of_id: "newline \<notin> set s \<Longrightarrow> line_of s = s"
  by (simp add: line_of_def takeWhile_eq_all_conv) blast

lemma rmatch_finish_re:
  "rmatch finish_re s =
     (let r = drop (length ''Finish['') s
      in if prefix ''Finish['' s \<and> CHR '']'' \<in> set (line_of r)
         then Some [r, drop (length (upto_last (CHR '']'') (line_of r))) r]
         else None)"
proof -
  have eq: "finish_re = lit ''Finish['' @ [Mark, Star Dot, Mark, Chr (CHR '']'')]"
    by (simp add: finish_re_def lit_def)
  show ?thesis
    unfolding eq rmatch_lit Let_def
    by (simp add: rmatch_star_dot_chr [OF rbracket_not_newline] del: drop_drop)
qed

lemma execute_finish:
  assumes "newline \<notin> set payload"
  shows "execute e (''Finish['' @ payload @ '']'') st = (Return payload, st)"
proof -
  let ?a = "''Finish['' @ payload @ '']''"
  have d: "drop (length ''Finish['') ?a = payload @ '']''" by simp
  have l: "line_of (payload @ '']'') = payload @ '']''"
    using assms by (intro line_of_id) (simp add: newline_def)
  have u: "upto_last (CHR '']'') (payload @ '']'') = payload"
    by (rule upto_last_snoc)
  have "rmatch finish_re ?a = Some [payload @ '']'', '']'']"
    unfolding rmatch_finish_re Let_def d l u by simp
  then show ?thesis
    by (simp add: execute_def between_def)
qed

lemma strip_id:
  assumes "s \<noteq> []" "\<not> is_space (hd s)" "\<not> is_space (last s)"
  shows "strip s = s"
proof -
  from assms have "dropWhile is_space s = s"
    by (cases s) simp_all
  moreover from assms have "dropWhile is_space (rev s) = rev s"
    by (cases "rev s") (simp_all add: hd_rev)
  ultimately show ?thesis
    by (simp add: strip_def)
qed

lemma response_action_finish:
  assumes "newline \<notin> set payload"
  shows "response_action (Some (''Thought: t\<newline>Action: Finish['' @ payload @ '']''))
           = Some (''Finish['' @ payload @ '']'')"
proof -
  let ?a = "''Finish['' @ payload @ '']''"
  have af: "after_first ''Action: '' (''Thought: t\<newline>Action: Finish['' @ payload @ '']'') = Some ?a"
    by simp
  have l: "line_of ?a = ?a"
    using assms by (intro line_of_id) (simp add: newline_def)
  have s: "strip ?a = ?a"
    by (rule strip_id) (simp_all add: is_space_def)
  show ?thesis
    using af l s by (simp add: parse_output_char parse_output_spec_def)
qed

lemma body_finish:
  assumes "think e (calls st) (prompt_of e q (entered st))
             = Some (''Thought: t\<newline>Action: Finish['' @ payload @ '']'')"
    and "newline \<notin> set payload"
  shows "body e q st = (Return payload, called st)"
  using assms response_action_finish [OF assms(2)] execute_finish [OF assms(2), of e "called st"]
  by (simp add: body_alt)

lemma body_dispatches:
  assumes "dispatches e (think e (calls st) (prompt_of e q (entered st)))"
  shows "\<exists>act name inp.
           body e q st =
             (Continue, (called st)\<lparr>history := history st
                @ [''Action: '' @ act, ''Observation: '' @ observe e name inp]\<rparr>)"
proof -
  from assms obtain act where
    ra: "response_action (think e (calls st) (prompt_of e q (entered st))) = Some act"
    and nf: "\<not> prefix ''Finish'' act"
    and rest: "(case parse_action act of
                  (Some name, Some inp) \<Rightarrow>
                    inp \<noteq> [] \<and> (case getTool e name of None \<Rightarrow> False | Some f \<Rightarrow> True)
                | _ \<Rightarrow> False)"
    by (cases "response_action (think e (calls st) (prompt_of e q (entered st)))")
       (simp_all add: dispatches_def)
  obtain a b where ab: "parse_action act = (a, b)"
    by (cases "parse_action act")
  from rest ab obtain name inp where
    pa: "parse_action act = (Some name, Some inp)" and ne: "inp \<noteq> []"
    by (cases a; cases b) simp_all
  from pa have "act \<noteq> []"
    by (auto simp: parse_action_char parse_action_spec_def Let_def)
  with ra have "body e q st = execute e act (called st)"
    by (simp add: body_alt)
  with execute_dispatch [OF nf pa ne, of e "called st"] show ?thesis
    by (auto simp: called_def)
qed

lemma loop_dispatch_finish:
  assumes "\<And>p. think e (calls st + m) p
                  = Some (''Thought: t\<newline>Action: Finish['' @ payload @ '']'')"
    and "newline \<notin> set payload"
    and "\<And>i p. calls st \<le> i \<Longrightarrow> i < calls st + m \<Longrightarrow> dispatches e (think e i p)"
    and "current_step st + int m < max_steps st"
  shows "fst (loop e q st) = Inr (Some payload)
         \<and> calls (snd (loop e q st)) = calls st + m + 1
         \<and> length (history (snd (loop e q st))) = length (history st) + 2 * m"
  using assms
proof (induction m arbitrary: st)
  case 0
  from "0.prems"(4) have lt: "current_step st < max_steps st" by simp
  from "0.prems"(1) have "think e (calls st) (prompt_of e q (entered st))
        = Some (''Thought: t\<newline>Action: Finish['' @ payload @ '']'')"
    by simp
  from body_finish [OF this "0.prems"(2)] have "body e q st = (Return payload, called st)" .
  from loop_Return [OF lt this] show ?case
    by (simp add: called_def)
next
  case (Suc m)
  from Suc.prems(4) have lt: "current_step st < max_steps st" by simp
  have "dispatches e (think e (calls st) (prompt_of e q (entered st)))"
    by (rule Suc.prems(3)) simp_all
  from body_dispatches [OF this] obtain act name inp where
    b: "body e q st =
             (Continue, (called st)\<lparr>history := history st
                @ [''Action: '' @ act, ''Observation: '' @ observe e name inp]\<rparr>)"
    by blast
  define st' where "st' = (called st)\<lparr>history := history st
                @ [''Action: '' @ act, ''Observation: '' @ observe e name inp]\<rparr>"
  have c: "calls st' = calls st + 1" and s: "current_step st' = current_step st + 1"
    and m: "max_steps st' = max_steps st" and h: "length (history st') = length (history st) + 2"
    by (simp_all add: st'_def called_def)
  have l: "loop e q st = loop e q st'"
    using loop_Continue [OF lt b] by (simp add: st'_def)
  have "fst (loop e q st') = Inr (Some payload)
         \<and> calls (snd (loop e q st')) = calls st' + m + 1
         \<and> length (history (snd (loop e q st'))) = length (history st') + 2 * m"
  proof (rule Suc.IH)
    show "think e (calls st' + m) p
            = Some (''Thought: t\<newline>Action: Finish['' @ payload @ '']'')" for p
      using Suc.prems(1) [of p] by (simp add: c)
    show "newline \<notin> set payload" by (rule Suc.prems(2))
    show "dispatches e (think e i p)" if "calls st' \<le> i" "i < calls st' + m" for i p
      using that by (intro Suc.prems(3)) (simp_all add: c)
    show "current_step st' + int m < max_steps st'"
      using Suc.prems(4) by (simp add: s m)
  qed
  then show ?case
    by (simp add: l c h)
qed


text \<open>
  Claim C6: when the first \<open>k - 1\<close> responses each dispatch a registered tool and the
  \<open>k\<close>-th response is \<open>Thought: t\<close>, \<open>Action: Finish[payload]\<close> with \<open>k \<le> max_steps\<close>,
  then \<open>run\<close> returns the payload as it is written, after exactly \<open>k\<close> calls of the
  generator, with a history of length \<open>2 * (k - 1)\<close>. The witness is the payload
  \<open>42\<close> at \<open>k = 3\<close>.
\<close>

theorem finish_at_step_k:
  assumes "0 < k" and "int k \<le> max_steps self" and "newline \<notin> set payload"
    and "\<And>i p. i < k - 1 \<Longrightarrow> dispatches e (think e i p)"
    and "\<And>p. think e (k - 1) p = Some (''Thought: t\<newline>Action: Finish['' @ payload @ '']'')"
  shows "fst (run e self q) = Inr (Some payload)
         \<and> calls (snd (run e self q)) = k
         \<and> length (history (snd (run e self q))) = 2 * (k - 1)"
proof -
  let ?st = "self\<lparr>history := [], current_step := 0, calls := 0\<rparr>"
  have "fst (loop e q ?st) = Inr (Some payload)
         \<and> calls (snd (loop e q ?st)) = calls ?st + (k - 1) + 1
         \<and> length (history (snd (loop e q ?st))) = length (history ?st) + 2 * (k - 1)"
  proof (rule loop_dispatch_finish)
    show "think e (calls ?st + (k - 1)) p
            = Some (''Thought: t\<newline>Action: Finish['' @ payload @ '']'')" for p
      using assms(5) [of p] by simp
    show "newline \<notin> set payload" by (rule assms(3))
    show "dispatches e (think e i p)" if "calls ?st \<le> i" "i < calls ?st + (k - 1)" for i p
      using that by (intro assms(4)) simp
    show "current_step ?st + int (k - 1) < max_steps ?st"
      using assms(1,2) by simp
  qed
  with assms(1) show ?thesis
    by (simp add: run_def)
qed

theorem finish_at_step_k_witness:
  "fst (run script_env demo_self ''q'') = Inr (Some ''42'')
   \<and> calls (snd (run script_env demo_self ''q'')) = 3
   \<and> length (history (snd (run script_env demo_self ''q''))) = 2 * (3 - 1)"
proof (rule finish_at_step_k)
  show "0 < (3::nat)" by simp
  show "int 3 \<le> max_steps demo_self" by (simp add: demo_self_def)
  show "newline \<notin> set ''42''" by (simp add: newline_def)
  show "dispatches script_env (think script_env i p)" if "i < 3 - 1" for i p
  proof -
    have "think script_env i p = Some ''Thought: look it up\<newline>Action: Search[x]''"
      using that by (simp add: script_env_def)
    moreover have "dispatches script_env (Some ''Thought: look it up\<newline>Action: Search[x]'')"
      by code_simp
    ultimately show ?thesis by simp
  qed
  show "think script_env (3 - 1) p = Some (''Thought: t\<newline>Action: Finish['' @ ''42'' @ '']'')" for p
    by (simp add: script_env_def)
qed

subsection \<open>The passes of a run\<close>

lemma iterations_exhausted:
  "\<not> current_step st < max_steps st \<Longrightarrow> iterations e q st = []"
  by (simp add: iterations.simps [of e q st])

lemma iterations_Continue:
  "current_step st < max_steps st \<Longrightarrow> body e q st = (Continue, st') \<Longrightarrow>
     iterations e q st = (Continue, st') # iterations e q st'"
  by (simp add: iterations.simps [of e q st])

lemma iterations_stop:
  "current_step st < max_steps st \<Longrightarrow> body e q st = (c, st') \<Longrightarrow> c \<noteq> Continue \<Longrightarrow>
     iterations e q st = [(c, st')]"
  by (cases c) (simp_all add: iterations.simps [of e q st])

text \<open>Induction over the passes of the loop.\<close>

lemma passes_induct [case_names exhausted stop continue]:
  assumes "\<And>st. \<not> current_step st < max_steps st \<Longrightarrow> P st"
    and "\<And>st c st'. current_step st < max_steps st \<Longrightarrow> body e q st = (c, st') \<Longrightarrow>
           c \<noteq> Continue \<Longrightarrow> P st"
    and "\<And>st st'. current_step st < max_steps st \<Longrightarrow> body e q st = (Continue, st') \<Longrightarrow>
           P st' \<Longrightarrow> P st"
  shows "P st"
  using assms
proof (induction e q st rule: iterations.induct)
  case (1 e q st)
  show ?case
  proof (cases "current_step st < max_steps st")
    case False
    then show ?thesis by (rule "1.prems"(1))
  next
    case True
    obtain c st' where b: "body e q st = (c, st')"
      by (cases "body e q st")
    show ?thesis
    proof (cases "c = Continue")
      case False
      from True b False show ?thesis by (rule "1.prems"(2))
    next
      case c: True
      have "P st'"
        by (rule "1.IH" [OF True b [symmetric] c "1.prems"])
      with True b c show ?thesis
        using "1.prems"(3) by blast
    qed
  qed
qed

lemma loop_iterations:
  "loop e q st =
     (if iterations e q st = [] then (Inr None, st)
      else (outcome (fst (last (iterations e q st))), snd (last (iterations e q st))))"
proof (induction st rule: passes_induct [where e = e and q = q])
  case (exhausted st)
  then show ?case
    by (simp add: loop_exhausted iterations_exhausted)
next
  case (stop st c st')
  then show ?case
    by (cases c) (simp_all add: iterations_stop loop_Break loop_Return loop_Raise)
next
  case (continue st st')
  then show ?case
    by (simp add: iterations_Continue loop_Continue loop_exhausted)
qed

lemma trace_length:
  "length (iterations e q st) \<le> nat (max_steps st - current_step st)"
proof (induction st rule: passes_induct [where e = e and q = q])
  case (exhausted st)
  then show ?case by (simp add: iterations_exhausted)
next
  case (stop st c st')
  then show ?case by (simp add: iterations_stop)
next
  case (continue st st')
  from body_counters [OF continue(2)] continue(1,3) show ?case
    by (simp add: iterations_Continue [OF continue(1,2)])
qed

lemma trace_counters:
  "i < length (iterations e q st) \<Longrightarrow>
     current_step (snd (iterations e q st ! i)) = current_step st + int i + 1
     \<and> calls (snd (iterations e q st ! i)) = calls st + i + 1
     \<and> max_steps (snd (iterations e q st ! i)) = max_steps st"
proof (induction st arbitrary: i rule: passes_induct [where e = e and q = q])
  case (exhausted st)
  then show ?case by (simp add: iterations_exhausted)
next
  case (stop st c st')
  from body_counters [OF stop(2)] stop show ?case
    by (simp add: iterations_stop)
next
  case (continue st st')
  note bc = body_counters [OF continue(2)]
  show ?case
  proof (cases i)
    case 0
    with bc show ?thesis
      by (simp add: iterations_Continue [OF continue(1,2)])
  next
    case (Suc j)
    with continue(4) have "j < length (iterations e q st')"
      by (simp add: iterations_Continue [OF continue(1,2)])
    from continue(3) [OF this] bc Suc show ?thesis
      by (simp add: iterations_Continue [OF continue(1,2)])
  qed
qed

lemma trace_continue:
  "Suc i < length (iterations e q st) \<Longrightarrow> fst (iterations e q st ! i) = Continue"
proof (induction st arbitrary: i rule: passes_induct [where e = e and q = q])
  case (exhausted st)
  then show ?case by (simp add: iterations_exhausted)
next
  case (stop st c st')
  then show ?case by (simp add: iterations_stop)
next
  case (continue st st')
  show ?case
  proof (cases i)
    case 0
    then show ?thesis
      by (simp add: iterations_Continue [OF continue(1,2)])
  next
    case (Suc j)
    with continue(4) have "Suc j < length (iterations e q st')"
      by (simp add: iterations_Continue [OF continue(1,2)])
    from continue(3) [OF this] Suc show ?thesis
      by (simp add: iterations_Continue [OF continue(1,2)])
  qed
qed

lemma loop_counters:
  "calls (snd (loop e q st)) = calls st + length (iterations e q st)
   \<and> current_step (snd (loop e q st)) = current_step st + int (length (iterations e q st))
   \<and> max_steps (snd (loop e q st)) = max_steps st"
proof (cases "iterations e q st = []")
  case True
  then show ?thesis by (simp add: loop_iterations)
next
  case False
  then obtain n where n: "length (iterations e q st) = Suc n"
    by (cases "iterations e q st") simp_all
  from False have "last (iterations e q st) = iterations e q st ! (length (iterations e q st) - 1)"
    by (rule last_conv_nth)
  with n have l: "last (iterations e q st) = iterations e q st ! n"
    by simp
  from n have "n < length (iterations e q st)"
    by simp
  from trace_counters [OF this] False l n show ?thesis
    by (simp add: loop_iterations)
qed


text \<open>
  Claim C7: for a positive \<open>max_steps = n\<close>, a run makes at most \<open>n\<close> calls of the
  generator and terminates; it makes exactly \<open>n\<close> calls only if no pass before the
  \<open>n\<close>-th ended with a final answer or an abort; the step counter never exceeds
  \<open>max_steps\<close>. Termination is the totality of \<open>loop\<close>, proved with its definition.
  The passes of the run are \<open>its\<close>: the result of \<open>run\<close> is the outcome of the last
  one, the number of calls is their number, the counter after pass \<open>i + 1\<close> is
  \<open>i + 1\<close>, and a pass that did not end with \<open>Continue\<close> is the last one.
\<close>

theorem step_bound:
  assumes "0 < max_steps self"
  shows "let st0 = self\<lparr>history := [], current_step := 0, calls := 0\<rparr>;
             its = iterations e q st0
         in run e self q
              = (if its = [] then (Inr None, st0)
                 else (outcome (fst (last its)), snd (last its)))
            \<and> calls (snd (run e self q)) = length its
            \<and> length its \<le> nat (max_steps self)
            \<and> (\<forall>i < length its.
                  current_step (snd (its ! i)) = int i + 1
                  \<and> current_step (snd (its ! i)) \<le> max_steps self)
            \<and> (\<forall>i < length its. fst (its ! i) \<noteq> Continue \<longrightarrow> length its = i + 1)
            \<and> (length its = nat (max_steps self)
                 \<longrightarrow> (\<forall>i. i + 1 < nat (max_steps self) \<longrightarrow> fst (its ! i) = Continue))
            \<and> current_step (snd (run e self q)) \<le> max_steps self"
proof -
  define st0 where "st0 = self\<lparr>history := [], current_step := 0, calls := 0\<rparr>"
  define its where "its = iterations e q st0"
  have st0: "current_step st0 = 0" "calls st0 = 0" "max_steps st0 = max_steps self"
    by (simp_all add: st0_def)
  have r: "run e self q = loop e q st0"
    by (simp add: run_def st0_def)
  have len: "length its \<le> nat (max_steps self)"
    using trace_length [of e q st0] by (simp add: its_def st0)
  have a: "run e self q
              = (if its = [] then (Inr None, st0)
                 else (outcome (fst (last its)), snd (last its)))"
    unfolding r its_def by (rule loop_iterations)
  have b: "calls (snd (run e self q)) = length its"
    using loop_counters [of e q st0] by (simp add: r its_def st0)
  have c: "current_step (snd (its ! i)) = int i + 1
           \<and> current_step (snd (its ! i)) \<le> max_steps self" if "i < length its" for i
    using trace_counters [of i e q st0] that len by (simp add: its_def st0)
  have d: "length its = i + 1" if "i < length its" "fst (its ! i) \<noteq> Continue" for i
  proof (rule ccontr)
    assume "length its \<noteq> i + 1"
    with that(1) have "Suc i < length its" by simp
    from trace_continue [OF this [unfolded its_def]] that(2) show False
      by (simp add: its_def)
  qed
  have f: "fst (its ! i) = Continue" if "i + 1 < length its" for i
    using trace_continue [of i e q st0] that by (simp add: its_def)
  have g: "current_step (snd (run e self q)) \<le> max_steps self"
    using loop_counters [of e q st0] len assms by (simp add: r its_def st0)
  from a b len c d f g show ?thesis
    unfolding Let_def st0_def [symmetric] its_def [symmetric] by auto
qed

theorem step_bound_witness:
  "calls (snd (run (demo_env\<lparr>think := (\<lambda>i p. Some ''Thought: again\<newline>Action: Search[x]'')\<rparr>)
                 demo_self ''q'')) = 5
   \<and> current_step (snd (run (demo_env\<lparr>think := (\<lambda>i p. Some ''Thought: again\<newline>Action: Search[x]'')\<rparr>)
                 demo_self ''q'')) \<le> max_steps demo_self
   \<and> calls (snd (run script_env demo_self ''q'')) = 3"
proof -
  let ?e = "demo_env\<lparr>think := (\<lambda>i p. Some ''Thought: again\<newline>Action: Search[x]'')\<rparr>"
  have pos: "0 < max_steps demo_self"
    by (simp add: demo_self_def)
  have l1: "length (iterations ?e ''q'' (demo_self\<lparr>history := [], current_step := 0, calls := 0\<rparr>)) = 5"
    by code_simp
  have l2: "length (iterations script_env ''q''
              (demo_self\<lparr>history := [], current_step := 0, calls := 0\<rparr>)) = 3"
    by code_simp
  note sb1 = step_bound [OF pos, of ?e "''q''", unfolded Let_def]
  note sb2 = step_bound [OF pos, of script_env "''q''", unfolded Let_def]
  from sb1 have c1: "calls (snd (run ?e demo_self ''q''))
      = length (iterations ?e ''q'' (demo_self\<lparr>history := [], current_step := 0, calls := 0\<rparr>))"
    by (elim conjE)
  from sb1 have c2: "current_step (snd (run ?e demo_self ''q'')) \<le> max_steps demo_self"
    by (elim conjE)
  from sb2 have c3: "calls (snd (run script_env demo_self ''q''))
      = length (iterations script_env ''q''
          (demo_self\<lparr>history := [], current_step := 0, calls := 0\<rparr>))"
    by (elim conjE)
  from c1 c2 c3 l1 l2 show ?thesis
    by (simp only: simp_thms)
qed


subsection \<open>The history\<close>

lemma body_history:
  assumes "body e q st = (c, st')"
  shows "history st' = history st
         \<or> (c = Continue
            \<and> (\<exists>act name inp.
                  response_action (think e (calls st) (prompt_of e q (entered st))) = Some act
                  \<and> \<not> prefix ''Finish'' act
                  \<and> parse_action act = (Some name, Some inp) \<and> inp \<noteq> []
                  \<and> history st' = history st
                       @ [''Action: '' @ act, ''Observation: '' @ observe e name inp]))"
proof (cases "response_action (think e (calls st) (prompt_of e q (entered st)))")
  case None
  with assms show ?thesis
    by (auto simp: body_alt called_def)
next
  case (Some act)
  show ?thesis
  proof (cases "act = []")
    case True
    with Some assms show ?thesis
      by (auto simp: body_alt called_def)
  next
    case False
    with Some assms have ex: "execute e act (called st) = (c, st')"
      by (simp add: body_alt)
    obtain a b where ab: "parse_action act = (a, b)"
      by (cases "parse_action act")
    show ?thesis
    proof (cases "\<not> prefix ''Finish'' act \<and> truthy a \<and> truthy b")
      case True
      then obtain name inp where n: "a = Some name" "b = Some inp" "inp \<noteq> []"
        by (cases a; cases b) simp_all
      with True ab have "execute e act (called st) =
           (Continue, (called st)\<lparr>history := history (called st)
              @ [''Action: '' @ act, ''Observation: '' @ observe e name inp]\<rparr>)"
        by (intro execute_dispatch) simp_all
      with ex Some True ab n show ?thesis
        by (auto simp: called_def)
    next
      case False
      with ex ab have "history st' = history (called st)"
        by (auto simp: execute_def split: if_splits option.splits list.splits)
      then show ?thesis
        by (simp add: called_def)
    qed
  qed
qed

lemma pairs_only_append:
  "pairs_only h \<Longrightarrow> pairs_only (h @ [''Action: '' @ a, ''Observation: '' @ b])"
  by (induction h rule: pairs_only.induct) simp_all

lemma pairs_only_even: "pairs_only h \<Longrightarrow> even (length h)"
  by (induction h rule: pairs_only.induct) simp_all

lemma body_pairs_only:
  "body e q st = (c, st') \<Longrightarrow> pairs_only (history st) \<Longrightarrow> pairs_only (history st')"
proof -
  assume b: "body e q st = (c, st')" and p: "pairs_only (history st)"
  from body_history [OF b] consider "history st' = history st"
    | act name inp where "history st' = history st
        @ [''Action: '' @ act, ''Observation: '' @ observe e name inp]"
    by blast
  then show ?thesis
  proof cases
    case 1
    with p show ?thesis by simp
  next
    case 2
    with pairs_only_append [OF p] show ?thesis by (simp only:)
  qed
qed

lemma trace_pairs_only:
  "pairs_only (history st) \<Longrightarrow> \<forall>(c, s) \<in> set (iterations e q st). pairs_only (history s)"
proof (induction st rule: passes_induct [where e = e and q = q])
  case (exhausted st)
  then show ?case by (simp add: iterations_exhausted)
next
  case (stop st c st')
  from body_pairs_only [OF stop(2) stop(4)] stop(1,2,3) show ?case
    by (simp add: iterations_stop)
next
  case (continue st st')
  from body_pairs_only [OF continue(2) continue(4)] continue show ?case
    by (simp add: iterations_Continue)
qed

lemma loop_pairs_only:
  assumes "pairs_only (history st)"
  shows "pairs_only (history (snd (loop e q st)))"
proof (cases "iterations e q st = []")
  case True
  with assms show ?thesis by (simp add: loop_iterations)
next
  case False
  then have "last (iterations e q st) \<in> set (iterations e q st)"
    by simp
  with trace_pairs_only [OF assms, of e q] have "pairs_only (history (snd (last (iterations e q st))))"
    by (auto simp: case_prod_beta)
  with False show ?thesis by (simp add: loop_iterations)
qed

lemma run_ignores_state:
  "max_steps s = max_steps s' \<Longrightarrow> run e (s :: state) q = run e (s' :: state) q"
  by (cases s; cases s') (simp add: run_def)


text \<open>
  Claim C8: the history is reset at the start of every run, so the history that the
  instance holds before a run has no effect on it, and a second run on the same
  instance behaves like a run on an instance with an empty history; within a run
  the history only grows, and only by the pair \<open>Action: \<close>, \<open>Observation: \<close> of a
  dispatched step: every pass either leaves the history as it is or ends with
  \<open>Continue\<close> after a successful parse and appends that pair. So a pass that aborts
  the run, returns or fails to parse its action appends nothing, and the length of
  the history is even after every pass and at the end.
\<close>

theorem history_discipline:
  "run e (self\<lparr>history := h\<rparr>) q = run e self q
   \<and> run e' (snd (run e self q)) q' = run e' (self\<lparr>history := []\<rparr>) q'
   \<and> pairs_only (history (snd (run e self q)))
   \<and> even (length (history (snd (run e self q))))
   \<and> (\<forall>(c, s) \<in> set (iterations e q (self\<lparr>history := [], current_step := 0, calls := 0\<rparr>)).
         even (length (history s)))
   \<and> (\<forall>st c st'. body e q st = (c, st') \<longrightarrow>
         history st' = history st
         \<or> (c = Continue
            \<and> (\<exists>act name inp.
                  response_action (think e (calls st) (prompt_of e q (entered st))) = Some act
                  \<and> \<not> prefix ''Finish'' act
                  \<and> parse_action act = (Some name, Some inp) \<and> inp \<noteq> []
                  \<and> history st' = history st
                       @ [''Action: '' @ act, ''Observation: '' @ observe e name inp])))"
proof -
  let ?st0 = "self\<lparr>history := [], current_step := 0, calls := 0\<rparr>"
  have p0: "pairs_only (history ?st0)" by simp
  have a: "run e (self\<lparr>history := h\<rparr>) q = run e self q"
    by (rule run_ignores_state) simp
  have "max_steps (snd (run e self q)) = max_steps (self\<lparr>history := []\<rparr>)"
    using loop_counters [of e q ?st0] by (simp add: run_def)
  then have b: "run e' (snd (run e self q)) q' = run e' (self\<lparr>history := []\<rparr>) q'"
    by (rule run_ignores_state)
  have c: "pairs_only (history (snd (run e self q)))"
    unfolding run_def by (rule loop_pairs_only [OF p0])
  have d: "\<forall>(c, s) \<in> set (iterations e q ?st0). even (length (history s))"
    using trace_pairs_only [OF p0, of e q] by (auto dest: pairs_only_even)
  from a b c d pairs_only_even [OF c] body_history [of e q] show ?thesis
    by blast
qed

theorem history_discipline_witness:
  "history (snd (run script_env (snd (run script_env demo_self ''q1'')) ''q2''))
     = [''Action: Search[x]'', ''Observation: result for x'',
        ''Action: Search[x]'', ''Observation: result for x'']
   \<and> even (length (history (snd (run script_env demo_self ''q1''))))"
proof -
  note hd = history_discipline [where e = script_env and self = demo_self and q = "''q1''"
      and e' = script_env and q' = "''q2''" and h = "[]"]
  from hd have 1: "run script_env (snd (run script_env demo_self ''q1'')) ''q2''
                     = run script_env (demo_self\<lparr>history := []\<rparr>) ''q2''"
    by (elim conjE)
  from hd have 2: "even (length (history (snd (run script_env demo_self ''q1''))))"
    by (elim conjE)
  have 3: "history (snd (run script_env (demo_self\<lparr>history := []\<rparr>) ''q2''))
     = [''Action: Search[x]'', ''Observation: result for x'',
        ''Action: Search[x]'', ''Observation: result for x'']"
    by code_simp
  from 1 2 3 show ?thesis
    by (simp only: simp_thms)
qed

end
